theory Spec2Isabelle
  imports Complex_Main "HOL-Library.Word" "HOL-Library.Signed_Division"
begin

section \<open>Remal CommonUtils: the string converters and the formatter\<close>

text \<open>
  A shallow embedding of \<^verbatim>\<open>src/src/Remal_CommonUtils.cpp\<close>.

  Memory. Every converter receives a pointer \<^verbatim>\<open>ResultBuff\<close> and a capacity. The
  pointer is modelled as a store from offsets (relative to \<^verbatim>\<open>ResultBuff\<close>) to bytes;
  the capacity is a separate number, as in the source, and nothing stops the code from
  writing at an offset beyond it: such a write lands in the store at that offset, as it
  lands in the adjacent memory of the microcontroller.

  Integers. \<^verbatim>\<open>uint32_t\<close> and \<^verbatim>\<open>int32_t\<close> values are \<open>32 word\<close> (read by \<open>unat\<close> and
  \<open>sint\<close>), \<^verbatim>\<open>uint8_t\<close> is \<open>8 word\<close>. Offsets and capacities are \<open>nat\<close>, return
  values are \<open>int\<close>: none of them leaves the range of its C type.
\<close>

type_synonym buffer = "nat \<Rightarrow> char"

abbreviation NUL :: char where
  "NUL \<equiv> CHR 0x00"

text \<open>
  The C string that starts at offset 0, read through at most \<open>n\<close> cells: the characters
  before the first terminator.
\<close>

definition c_str :: "nat \<Rightarrow> buffer \<Rightarrow> string" where
  "c_str n mem = takeWhile (\<lambda>c. c \<noteq> NUL) (map mem [0..<n])"

subsection \<open>RML_COMM_utoa\<close>

text \<open>The lookup table of lines 543 and 597: 71 characters, the digit 0 at index 35.\<close>

definition digit_table :: string where
  "digit_table = ''ZYXWVUTSRQPONMLKJIHGFEDCBA9876543210123456789ABCDEFGHIJKLMNOPQRSTUVWXYZ''"

text \<open>
  The do-while loop of lines 537 to 544. \<^verbatim>\<open>Base\<close> is the \<^verbatim>\<open>uint8_t\<close> argument
  converted to \<^verbatim>\<open>uint32_t\<close>. The loop is entered only behind the base check of
  line 523; the first test stands for that check (with a base below 2 the C loop either
  traps on the division or never ends).
\<close>

function utoa_loop :: "32 word \<Rightarrow> 32 word \<Rightarrow> buffer \<Rightarrow> nat \<Rightarrow> buffer \<times> nat" where
  "utoa_loop Value Base mem ptr =
     (if Base < 2 then (mem, ptr)
      else
        let tmp_value = Value;
            Value' = Value div Base;
            mem' = mem(ptr := digit_table ! unat (35 + (tmp_value - Value' * Base)));
            ptr' = ptr + 1
        in if Value' \<noteq> 0 then utoa_loop Value' Base mem' ptr' else (mem', ptr'))"
  by pat_completeness auto
termination
proof (relation "measure (\<lambda>(Value, Base, mem, ptr). unat Value)", goal_cases)
  case 1
  show ?case by simp
next
  case (2 Value Base mem ptr tmp Value' mem' ptr')
  have b2: "2 \<le> unat Base"
    using 2 by (simp add: word_less_nat_alt not_less)
  have "unat Value' = unat Value div unat Base"
    using 2 by (simp add: unat_div)
  moreover have "unat Value \<noteq> 0"
    using 2 by (auto simp: unat_eq_0 word_div_def)
  ultimately have "unat Value' < unat Value"
    using b2 by simp
  then show ?case by simp
qed

text \<open>
  The reversal loop of lines 558 to 563 (and 619 to 624): \<^verbatim>\<open>ptr1\<close> walks up and
  \<^verbatim>\<open>ptr\<close> walks down, both as offsets from \<^verbatim>\<open>ResultBuff\<close>. The offset \<^verbatim>\<open>ptr\<close> is an
  \<open>int\<close> because the pointer may step to one cell before the buffer.
\<close>

function reverse_loop :: "buffer \<Rightarrow> int \<Rightarrow> int \<Rightarrow> buffer \<times> int" where
  "reverse_loop mem ptr1 ptr =
     (if ptr1 < ptr then
        let tmp_char = mem (nat ptr);
            mem' = mem(nat ptr := mem (nat ptr1));
            mem'' = mem'(nat ptr1 := tmp_char)
        in reverse_loop mem'' (ptr1 + 1) (ptr - 1)
      else (mem, ptr))"
  by pat_completeness auto
termination
  by (relation "measure (\<lambda>(mem, ptr1, ptr). nat (ptr - ptr1))") auto

text \<open>
  Lines 520 to 567. The result is the value returned and the store afterwards.
\<close>

definition RML_COMM_utoa :: "32 word \<Rightarrow> buffer \<Rightarrow> nat \<Rightarrow> 8 word \<Rightarrow> int \<times> buffer" where
  "RML_COMM_utoa Value ResultBuff ResultBuff_Size Base =
     (if Base < 2 \<or> Base > 36 then (- 1, ResultBuff(0 := NUL))
      else
        let (mem, ptr) = utoa_loop Value (ucast Base) ResultBuff 0
        in if ptr \<ge> ResultBuff_Size then (- 1, mem(0 := NUL))
           else
             let mem' = mem(ptr := NUL);
                 (mem'', ptr') = reverse_loop mem' 0 (int ptr - 1)
             in (ptr', mem''))"

subsection \<open>RML_COMM_itoa\<close>

text \<open>
  The do-while loop of lines 591 to 598. \<^verbatim>\<open>Value\<close> is an \<^verbatim>\<open>int32_t\<close> and
  \<^verbatim>\<open>Base\<close> is promoted to \<^verbatim>\<open>int\<close>, so the division is C's signed division, which
  truncates towards zero (\<open>sdiv\<close> on \<open>int\<close>), and the table index
  \<^verbatim>\<open>35 + (tmp_value - Value * Base)\<close> is computed in \<^verbatim>\<open>int\<close>: it lies below 35 for
  a negative value. As in \<open>utoa_loop\<close>, the first test stands for the base check of
  line 575.
\<close>

function itoa_loop :: "32 word \<Rightarrow> 8 word \<Rightarrow> buffer \<Rightarrow> nat \<Rightarrow> buffer \<times> nat" where
  "itoa_loop Value Base mem ptr =
     (if Base < 2 then (mem, ptr)
      else
        let tmp_value = Value;
            Value' = (word_of_int (sint Value sdiv uint Base) :: 32 word);
            mem' = mem(ptr := digit_table ! nat (35 + (sint tmp_value - sint Value' * uint Base)));
            ptr' = ptr + 1
        in if Value' \<noteq> 0 then itoa_loop Value' Base mem' ptr' else (mem', ptr'))"
  by pat_completeness auto
termination
proof (relation "measure (\<lambda>(Value, Base, mem, ptr). nat \<bar>sint Value\<bar>)", goal_cases)
  case 1
  show ?case by simp
next
  case (2 Value Base mem ptr tmp Value' mem' ptr')
  have b2: "2 \<le> uint Base"
    using 2 by (simp add: word_less_def not_less)
  have abs_sdiv: "\<bar>k sdiv l\<bar> = \<bar>k\<bar> div l" if l: "0 < l" for k l :: int
  proof -
    have nn: "0 \<le> \<bar>k\<bar> div l"
      using l by (simp add: pos_imp_zdiv_nonneg_iff)
    consider "k < 0" | "k = 0" | "0 < k"
      by linarith
    then show ?thesis
    proof cases
      case 1
      with l nn show ?thesis by (simp add: signed_divide_int_def)
    next
      case 2
      then show ?thesis by simp
    next
      case 3
      with l nn show ?thesis by (simp add: signed_divide_int_def)
    qed
  qed
  have q: "\<bar>sint Value sdiv uint Base\<bar> = \<bar>sint Value\<bar> div uint Base"
    using b2 by (intro abs_sdiv) simp
  have nz: "sint Value \<noteq> 0"
    using 2 by auto
  have lt: "\<bar>sint Value\<bar> div uint Base < \<bar>sint Value\<bar>"
    using nz b2 by (intro int_div_less_self) simp_all
  have r: "- (2 ^ 31) \<le> sint Value" "sint Value < 2 ^ 31"
    using sint_ge [of Value] sint_lt [of Value] by simp_all
  have "- (2 ^ 31) \<le> sint Value sdiv uint Base" "sint Value sdiv uint Base < 2 ^ 31"
    using q lt r by linarith+
  then have "sint Value' = sint Value sdiv uint Base"
    using 2 by (simp add: sint_sbintrunc' signed_take_bit_int_eq_self)
  then have "\<bar>sint Value'\<bar> < \<bar>sint Value\<bar>"
    using q lt by simp
  then show ?case by simp
qed

text \<open>Lines 572 to 628.\<close>

definition RML_COMM_itoa :: "32 word \<Rightarrow> buffer \<Rightarrow> nat \<Rightarrow> 8 word \<Rightarrow> int \<times> buffer" where
  "RML_COMM_itoa Value ResultBuff ResultBuff_Size Base =
     (if Base < 2 \<or> Base > 36 then (- 1, ResultBuff(0 := NUL))
      else
        let tmp_value2 = Value;
            (mem, ptr) = itoa_loop Value Base ResultBuff 0;
            (mem, ptr) = (if sint tmp_value2 < 0 \<and> Base = 10
                          then (mem(ptr := CHR ''-''), ptr + 1) else (mem, ptr))
        in if ptr \<ge> ResultBuff_Size then (- 1, mem(0 := NUL))
           else
             let mem' = mem(ptr := NUL);
                 (mem'', ptr') = reverse_loop mem' 0 (int ptr - 1)
             in (ptr', mem''))"

subsection \<open>RML_COMM_ReverseString and RML_COMM_ftoa\<close>

text \<open>
  Lines 633 to 643. \<^verbatim>\<open>i\<close> and \<^verbatim>\<open>j\<close> are \<^verbatim>\<open>uint32_t\<close>; \<^verbatim>\<open>j = Length - 1\<close> wraps to
  \<open>2 ^ 32 - 1\<close> when \<^verbatim>\<open>Length\<close> is 0.
\<close>

function ReverseString_loop :: "buffer \<Rightarrow> nat \<Rightarrow> nat \<Rightarrow> buffer" where
  "ReverseString_loop Str i j =
     (if i < j then
        let temp = Str i;
            Str' = Str(i := Str j);
            Str'' = Str'(j := temp)
        in ReverseString_loop Str'' (i + 1) (j - 1)
      else Str)"
  by pat_completeness auto
termination
  by (relation "measure (\<lambda>(Str, i, j). j - i)") auto

definition RML_COMM_ReverseString :: "buffer \<Rightarrow> nat \<Rightarrow> buffer" where
  "RML_COMM_ReverseString Str Length =
     ReverseString_loop Str 0 ((Length + 2 ^ 32 - 1) mod 2 ^ 32)"

text \<open>
  The arithmetic of \<^verbatim>\<open>double\<close> is a parameter of the model: the four operations that
  \<^verbatim>\<open>RML_COMM_ftoa\<close> applies to a \<^verbatim>\<open>double\<close>. \<open>d2i\<close> is the cast \<^verbatim>\<open>(int32_t)x\<close>,
  \<open>dsub_i x n\<close> is \<^verbatim>\<open>x - n\<close> with the \<^verbatim>\<open>int32_t\<close> \<open>n\<close> converted to \<^verbatim>\<open>double\<close>,
  \<open>dneg\<close> is the negation and \<open>dmul10\<close> is \<^verbatim>\<open>x * 10\<close>.
\<close>

record 'd fpu =
  d2i :: "'d \<Rightarrow> 32 word"
  dsub_i :: "'d \<Rightarrow> 32 word \<Rightarrow> 'd"
  dneg :: "'d \<Rightarrow> 'd"
  dmul10 :: "'d \<Rightarrow> 'd"

text \<open>
  An instance for running the model: exact arithmetic on the rationals, the cast
  truncating towards zero. It agrees with IEEE double arithmetic on every input on which
  no operation rounds, which is the case of the dyadic values used below.
\<close>

definition rat_trunc :: "rat \<Rightarrow> int" where
  "rat_trunc x = (if x < 0 then - \<lfloor>- x\<rfloor> else \<lfloor>x\<rfloor>)"

definition exact_fpu :: "rat fpu" where
  "exact_fpu = \<lparr> d2i = (\<lambda>x. word_of_int (rat_trunc x)),
                 dsub_i = (\<lambda>x n. x - of_int (sint n)),
                 dneg = (\<lambda>x. - x),
                 dmul10 = (\<lambda>x. x * 10) \<rparr>"

text \<open>
  The do-while loop of lines 664 to 676; \<open>Inl\<close> is the early return of line 673, with
  the store it leaves. \<^verbatim>\<open>WholePart % 10\<close> and \<^verbatim>\<open>WholePart /= 10\<close> are C's signed
  remainder and division; the sum with \<^verbatim>\<open>'0'\<close> (48) is an \<^verbatim>\<open>int\<close> stored into a
  \<^verbatim>\<open>char\<close>.
\<close>

function ftoa_whole :: "32 word \<Rightarrow> buffer \<Rightarrow> nat \<Rightarrow> nat \<Rightarrow> buffer + buffer \<times> nat" where
  "ftoa_whole WholePart mem i BuffSize =
     (if i < BuffSize then
        let mem' = mem(i := char_of (sint WholePart smod 10 + 48));
            i' = i + 1;
            WholePart' = (word_of_int (sint WholePart sdiv 10) :: 32 word)
        in if 0 < sint WholePart' then ftoa_whole WholePart' mem' i' BuffSize
           else Inr (mem', i')
      else Inl (mem(0 := NUL)))"
  by pat_completeness auto
termination
  by (relation "measure (\<lambda>(WholePart, mem, i, BuffSize). BuffSize - i)") auto

text \<open>
  The for loop of lines 701 to 715, \<^verbatim>\<open>z\<close> counting up to \<^verbatim>\<open>Afterpoint\<close>; \<open>Inl\<close> is
  the early return of line 712.
\<close>

function ftoa_frac ::
  "'d fpu \<Rightarrow> 'd \<Rightarrow> buffer \<Rightarrow> nat \<Rightarrow> nat \<Rightarrow> nat \<Rightarrow> nat \<Rightarrow> buffer + buffer \<times> nat" where
  "ftoa_frac fp FractionalPart mem i BuffSize z Afterpoint =
     (if z < Afterpoint then
        let FractionalPart' = dmul10 fp FractionalPart;
            digit = d2i fp FractionalPart'
        in if i < BuffSize then
             ftoa_frac fp (dsub_i fp FractionalPart' digit)
               (mem(i := char_of (sint digit + 48))) (i + 1) BuffSize (z + 1) Afterpoint
           else Inl (mem(0 := NUL))
      else Inr (mem, i))"
  by pat_completeness auto
termination
  by (relation "measure (\<lambda>(fp, FractionalPart, mem, i, BuffSize, z, Afterpoint). Afterpoint - z)")
    auto

text \<open>The terminator of lines 719 to 728.\<close>

definition ftoa_terminate :: "buffer \<Rightarrow> nat \<Rightarrow> nat \<Rightarrow> int \<times> buffer" where
  "ftoa_terminate mem i BuffSize =
     (if i + 1 > BuffSize then (int i, mem(0 := NUL)) else (int i, mem(i := NUL)))"

text \<open>
  Lines 648 to 729. \<^verbatim>\<open>-WholePart\<close> is the negation of an \<^verbatim>\<open>int32_t\<close>; on the least
  value it wraps, as the targets' two's-complement negation does.
\<close>

definition RML_COMM_ftoa :: "'d fpu \<Rightarrow> 'd \<Rightarrow> buffer \<Rightarrow> nat \<Rightarrow> 8 word \<Rightarrow> int \<times> buffer" where
  "RML_COMM_ftoa fp Value ResultBuff BuffSize Afterpoint =
     (let WholePart0 = d2i fp Value;
          FractionalPart0 = dsub_i fp Value WholePart0;
          NegativeFlag = (sint WholePart0 < 0);
          WholePart = (if NegativeFlag then - WholePart0 else WholePart0);
          FractionalPart = (if NegativeFlag then dneg fp FractionalPart0 else FractionalPart0)
      in case ftoa_whole WholePart ResultBuff 0 BuffSize of
           Inl mem \<Rightarrow> (- 1, mem)
         | Inr (mem, i) \<Rightarrow>
             let (mem, i) = (if NegativeFlag \<and> i < BuffSize
                             then (mem(i := CHR ''-''), i + 1) else (mem, i));
                 mem = RML_COMM_ReverseString mem i
             in if Afterpoint > 0 then
                  if i < BuffSize then
                    (case ftoa_frac fp FractionalPart (mem(i := CHR ''.'')) (i + 1) BuffSize
                            0 (unat Afterpoint) of
                       Inl mem \<Rightarrow> (- 1, mem)
                     | Inr (mem, i) \<Rightarrow> ftoa_terminate mem i BuffSize)
                  else (- 1, mem(i := NUL))
                else ftoa_terminate mem i BuffSize)"

subsection \<open>The logger state and the formatter\<close>

text \<open>
  The private variables of lines 29 and 97 to 104, and the characters written so far
  through \<^verbatim>\<open>PUTCHAR_FUNC\<close> and \<^verbatim>\<open>PUTCHAR_N_FUNC\<close> (the sink).
\<close>

record logger =
  Logger_InitDone :: "8 word"
  LogLevelsEnable :: "8 word list"
  sink :: string

record GenericUART_Struct =
  RX_Pin :: "8 word"
  TX_Pin :: "8 word"
  BaudRate :: "32 word"

definition MaxBaudrate :: "32 word" where
  "MaxBaudrate = 115200"

text \<open>Lines 124 to 172; the UART set-up of the targets is outside the model.\<close>

definition RML_COMM_LoggerInit :: "logger \<Rightarrow> GenericUART_Struct \<Rightarrow> int \<times> logger" where
  "RML_COMM_LoggerInit st UARTComm =
     (if BaudRate UARTComm > MaxBaudrate \<or> BaudRate UARTComm = 0 then (- 1, st)
      else (0, st\<lparr>Logger_InitDone := 1\<rparr>))"

text \<open>
  The variable arguments. \<^verbatim>\<open>va_arg\<close> reads an \<^verbatim>\<open>int\<close>, \<^verbatim>\<open>uint32_t\<close> or \<^verbatim>\<open>int32_t\<close>
  from a 32-bit integer argument, a \<^verbatim>\<open>char *\<close> from a string and a \<^verbatim>\<open>double\<close> from a
  double. Reading an argument of another kind, or one that is not there, is undefined in
  C: the model returns \<open>None\<close>.
\<close>

datatype 'd vararg = VStr string | VInt "32 word" | VDouble 'd

text \<open>
  The six cases of lines 433 to 478, which differ in the precision only: the digit
  characters 1 to 6 and the number of decimal places each one selects.
\<close>

definition precision_digit :: "char \<Rightarrow> 8 word option" where
  "precision_digit = map_of (zip ''123456'' [1, 2, 3, 4, 5, 6])"

text \<open>
  The loop of lines 371 to 514 over the rest of the format string (a C string: the list
  holds the characters before the terminator). \<^verbatim>\<open>IntStr\<close> is the 20-byte array of
  line 366; every conversion below leaves a terminator inside it, so what
  \<^verbatim>\<open>PUTCHAR_N_FUNC IntStr\<close> writes is \<open>c_str 20\<close> of it. The result is the sink and
  the arguments not yet read. Where the source moves \<^verbatim>\<open>InputStr\<close> beyond the
  terminator (after \<^verbatim>\<open>%.\<close> at the end of the string, or after \<^verbatim>\<open>%.\<close> and a digit at
  the end of the string) the next read is undefined: \<open>None\<close>.
\<close>

fun vprintf_loop ::
  "'d fpu \<Rightarrow> string \<Rightarrow> buffer \<Rightarrow> string \<Rightarrow> 'd vararg list \<Rightarrow> (string \<times> 'd vararg list) option"
where
  "vprintf_loop fp [] IntStr out args = Some (out, args)"
| "vprintf_loop fp (c # s) IntStr out args =
     (if c = CHR ''%'' then
        (case s of
           [] \<Rightarrow> Some (out, args)
         | d # s1 \<Rightarrow>
             if d = CHR ''s'' then
               (case args of
                  VStr StringArg # args' \<Rightarrow> vprintf_loop fp s1 IntStr (out @ StringArg) args'
                | _ \<Rightarrow> None)
             else if d = CHR ''c'' then
               (case args of
                  VInt CharArg # args' \<Rightarrow>
                    vprintf_loop fp s1 IntStr (out @ [char_of (uint CharArg)]) args'
                | _ \<Rightarrow> None)
             else if d = CHR ''u'' then
               (case args of
                  VInt UnsignedArg # args' \<Rightarrow>
                    let IntStr' = snd (RML_COMM_utoa UnsignedArg IntStr 20 10)
                    in vprintf_loop fp s1 IntStr' (out @ c_str 20 IntStr') args'
                | _ \<Rightarrow> None)
             else if d = CHR ''i'' \<or> d = CHR ''d'' then
               (case args of
                  VInt SignedArg # args' \<Rightarrow>
                    let IntStr' = snd (RML_COMM_itoa SignedArg IntStr 20 10)
                    in vprintf_loop fp s1 IntStr' (out @ c_str 20 IntStr') args'
                | _ \<Rightarrow> None)
             else if d = CHR ''%'' then vprintf_loop fp s1 IntStr (out @ [CHR ''%'']) args
             else if d = CHR ''X'' \<or> d = CHR ''x'' then
               (case args of
                  VInt UnsignedArg # args' \<Rightarrow>
                    let IntStr' = snd (RML_COMM_utoa UnsignedArg IntStr 20 16)
                    in vprintf_loop fp s1 IntStr' (out @ c_str 20 IntStr') args'
                | _ \<Rightarrow> None)
             else if d = CHR ''.'' then
               (case s1 of
                  [] \<Rightarrow> None
                | p # s2 \<Rightarrow>
                    (case precision_digit p of
                       Some Afterpoint \<Rightarrow>
                         (case args of
                            VDouble DoubleArg # args' \<Rightarrow>
                              let IntStr' = snd (RML_COMM_ftoa fp DoubleArg IntStr 20 Afterpoint)
                              in (case s2 of
                                    [] \<Rightarrow> None
                                  | f # s3 \<Rightarrow>
                                      vprintf_loop fp s3 IntStr' (out @ c_str 20 IntStr') args')
                          | _ \<Rightarrow> None)
                     | None \<Rightarrow> vprintf_loop fp s2 IntStr (out @ [p]) args))
             else if d = CHR ''f'' then
               (case args of
                  VDouble DoubleArg # args' \<Rightarrow>
                    let IntStr' = snd (RML_COMM_ftoa fp DoubleArg IntStr 20 2)
                    in vprintf_loop fp s1 IntStr' (out @ c_str 20 IntStr') args'
                | _ \<Rightarrow> None)
             else vprintf_loop fp s1 IntStr (out @ [CHR ''%'', d]) args)
      else vprintf_loop fp s IntStr (out @ [c]) args)"

text \<open>
  Lines 354 to 515. \<open>IntStr\<close> is what the stack holds where the array is allocated.
  The result is the logger state and the arguments not yet read.
\<close>

definition RML_COMM_vprintf ::
  "'d fpu \<Rightarrow> buffer \<Rightarrow> logger \<Rightarrow> string \<Rightarrow> 'd vararg list \<Rightarrow> (logger \<times> 'd vararg list) option"
where
  "RML_COMM_vprintf fp IntStr st InputStr VaList =
     (if Logger_InitDone st = 0 then Some (st, VaList)
      else
        (case vprintf_loop fp InputStr IntStr (sink st) VaList of
           None \<Rightarrow> None
         | Some (out, args) \<Rightarrow> Some (st\<lparr>sink := out\<rparr>, args)))"

text \<open>Lines 335 to 349.\<close>

definition RML_COMM_printf ::
  "'d fpu \<Rightarrow> buffer \<Rightarrow> logger \<Rightarrow> string \<Rightarrow> 'd vararg list \<Rightarrow> (logger \<times> 'd vararg list) option"
where
  "RML_COMM_printf fp IntStr st InputStr VaList =
     (if Logger_InitDone st = 0 then Some (st, VaList)
      else RML_COMM_vprintf fp IntStr st InputStr VaList)"

text \<open>
  Lines 177 to 284. \<^verbatim>\<open>ENABLE_COLOR_SUPPORT\<close> is 0 in the header, so every colour
  string is empty. The log levels \<^verbatim>\<open>e_DEBUG\<close> to \<^verbatim>\<open>e_FATAL\<close> are 0 to 4.
\<close>

definition LogLevel_Str :: "string list" where
  "LogLevel_Str = [''DEBUG'', ''INFO'', ''WARNING'', ''ERROR'', ''FATAL'']"

definition ANSI_colour :: string where
  "ANSI_colour = []"

definition RML_COMM_LogMsg ::
  "'d fpu \<Rightarrow> buffer \<Rightarrow> logger \<Rightarrow> string \<Rightarrow> 8 word \<Rightarrow> string \<Rightarrow> 'd vararg list
     \<Rightarrow> (logger \<times> 'd vararg list) option"
where
  "RML_COMM_LogMsg fp IntStr st Src LogLvl Msg VaList =
     (if Logger_InitDone st = 0 then Some (st, VaList)
      else if LogLvl = 0 \<and> LogLevelsEnable st ! 0 = 0 then Some (st, VaList)
      else if LogLvl = 1 \<and> LogLevelsEnable st ! 1 = 0 then Some (st, VaList)
      else if LogLvl = 2 \<and> LogLevelsEnable st ! 2 = 0 then Some (st, VaList)
      else if LogLvl = 3 \<and> LogLevelsEnable st ! 3 = 0 then Some (st, VaList)
      else if LogLvl = 4 \<and> LogLevelsEnable st ! 4 = 0 then Some (st, VaList)
      else
        let LogLvlUnknown = (4 < LogLvl);
            ColorStr = ANSI_colour;
            st1 = st\<lparr>sink := sink st @ ColorStr @ ''> [''
                    @ (if LogLvlUnknown then ''Unknown LogLvl?'' else LogLevel_Str ! unat LogLvl)
                    @ ''] '' @ Src @ '': ''\<rparr>
        in (case RML_COMM_vprintf fp IntStr st1 Msg VaList of
              None \<Rightarrow> None
            | Some (st2, args) \<Rightarrow>
                Some (st2\<lparr>sink := sink st2 @ ANSI_colour @ [CHR 0x0D, CHR 0x0A]\<rparr>, args)))"

subsection \<open>Reading a number back\<close>

text \<open>
  The reference notions the properties are stated with. The digits of a natural number
  in a base, least significant first, over the alphabet 0-9A-Z; and the parser that reads
  such digits back, most significant first, failing on any other character and on a digit
  that is not below the base.
\<close>

definition digit_char :: "nat \<Rightarrow> char" where
  "digit_char d = ''0123456789ABCDEFGHIJKLMNOPQRSTUVWXYZ'' ! d"

function nat_digits_rev :: "nat \<Rightarrow> nat \<Rightarrow> string" where
  "nat_digits_rev b n =
     (if b < 2 then []
      else digit_char (n mod b) # (if n div b \<noteq> 0 then nat_digits_rev b (n div b) else []))"
  by pat_completeness auto
termination
proof (relation "measure (\<lambda>(b, n). n)", goal_cases)
  case 1
  show ?case by simp
next
  case (2 b n)
  then have "1 < b" "0 < n"
    by (auto intro: gr0I)
  then have "n div b < n"
    by (rule div_less_dividend)
  then show ?case by simp
qed

definition digit_value :: "char \<Rightarrow> nat option" where
  "digit_value c =
     (let n = (of_char c :: nat)
      in if 48 \<le> n \<and> n \<le> 57 then Some (n - 48)
         else if 65 \<le> n \<and> n \<le> 90 then Some (n - 55)
         else None)"

fun parse_digits :: "nat \<Rightarrow> string \<Rightarrow> nat \<Rightarrow> nat option" where
  "parse_digits b [] acc = Some acc"
| "parse_digits b (c # cs) acc =
     (case digit_value c of
        None \<Rightarrow> None
      | Some d \<Rightarrow> if d < b then parse_digits b cs (acc * b + d) else None)"

definition reparse :: "nat \<Rightarrow> string \<Rightarrow> nat option" where
  "reparse b s = (if s = [] then None else parse_digits b s 0)"

subsection \<open>Concrete inputs\<close>

text \<open>
  A buffer whose cells all hold a stale non-zero byte, a logger before and after a
  successful \<^verbatim>\<open>RML_COMM_LoggerInit\<close>, and a UART configuration.
\<close>

definition stale_buffer :: buffer where
  "stale_buffer = (\<lambda>_. CHR ''x'')"

definition boot_logger :: logger where
  "boot_logger = \<lparr> Logger_InitDone = 0, LogLevelsEnable = [1, 1, 1, 1, 1], sink = [] \<rparr>"

definition usb_uart :: GenericUART_Struct where
  "usb_uart = \<lparr> RX_Pin = 0, TX_Pin = 0, BaudRate = 115200 \<rparr>"

definition ready_logger :: logger where
  "ready_logger = snd (RML_COMM_LoggerInit boot_logger usb_uart)"

subsection \<open>A string written into a store\<close>

text \<open>
  The store that holds the characters \<open>xs\<close> from offset \<open>p\<close> on and agrees with \<open>mem\<close>
  everywhere else. The results of the converters are stated with it.
\<close>

definition store_at :: "buffer \<Rightarrow> nat \<Rightarrow> string \<Rightarrow> buffer" where
  "store_at mem p xs = (\<lambda>k. if p \<le> k \<and> k < p + length xs then xs ! (k - p) else mem k)"

section \<open>Evaluation\<close>

text \<open>
  Facts that let the simplifier run the model on concrete inputs: the string held by a
  store, one cell at a time, and the integer part of a rational numeral.
\<close>

lemma c_str_from:
  "takeWhile P (map mem [i..<n]) =
     (if i < n then (if P (mem i) then mem i # takeWhile P (map mem [Suc i..<n]) else [])
      else [])"
  by (simp add: upt_conv_Cons)

lemma floor_rat_numeral: "\<lfloor>numeral a / numeral b :: rat\<rfloor> = numeral a div numeral b"
  using floor_divide_of_int_eq [of "numeral a" "numeral b", where ?'a = rat] by simp

lemma floor_rat_one_numeral: "\<lfloor>1 / numeral b :: rat\<rfloor> = 1 div numeral b"
  using floor_divide_of_int_eq [of 1 "numeral b", where ?'a = rat] by simp

lemmas run_ftoa =
  ftoa_whole.simps ftoa_frac.simps ReverseString_loop.simps
  RML_COMM_ftoa_def Let_def signed_divide_int_def signed_modulo_int_def char_of_def
  RML_COMM_ReverseString_def ftoa_terminate_def exact_fpu_def rat_trunc_def
  floor_rat_numeral floor_rat_one_numeral c_str_def c_str_from

lemmas run_itoa =
  utoa_loop.simps itoa_loop.simps reverse_loop.simps
  RML_COMM_utoa_def RML_COMM_itoa_def digit_table_def signed_divide_int_def
  c_str_def c_str_from

lemmas run_logger =
  RML_COMM_vprintf_def ready_logger_def boot_logger_def usb_uart_def
  RML_COMM_LoggerInit_def MaxBaudrate_def precision_digit_def

section \<open>The base check\<close>

text \<open>
  C4. For every base outside 2..36 and every value, \<^verbatim>\<open>RML_COMM_utoa\<close> and
  \<^verbatim>\<open>RML_COMM_itoa\<close> return -1 and the only cell they write is the first one, which
  receives the terminator: the buffer holds the empty string and nothing else changed.
\<close>

theorem invalid_base_rejected:
  "Base < 2 \<or> 36 < Base \<Longrightarrow>
     RML_COMM_utoa UValue mem cap Base = (- 1, mem(0 := NUL)) \<and>
     RML_COMM_itoa SValue mem cap Base = (- 1, mem(0 := NUL))"
  by (simp add: RML_COMM_utoa_def RML_COMM_itoa_def)

theorem invalid_base_rejected_witness:
  "((37 :: 8 word) < 2 \<or> 36 < (37 :: 8 word)) \<and>
   RML_COMM_utoa 5 stale_buffer 20 37 = (- 1, stale_buffer(0 := NUL)) \<and>
   RML_COMM_itoa (- 5) stale_buffer 20 37 = (- 1, stale_buffer(0 := NUL)) \<and>
   c_str 20 (stale_buffer(0 := NUL)) = []"
  using invalid_base_rejected [of 37 5 stale_buffer 20 "- 5"]
  by (simp add: c_str_def c_str_from)

section \<open>The initialisation gate\<close>

text \<open>
  C9. While \<^verbatim>\<open>Logger_InitDone\<close> is 0, \<^verbatim>\<open>RML_COMM_printf\<close>, \<^verbatim>\<open>RML_COMM_vprintf\<close> and
  \<^verbatim>\<open>RML_COMM_LogMsg\<close> return at once for every format string and argument list: the
  logger state, and with it the sink, is unchanged and no argument is read.
\<close>

theorem no_output_before_init:
  "Logger_InitDone st = 0 \<Longrightarrow>
     RML_COMM_printf fp IntStr st InputStr VaList = Some (st, VaList) \<and>
     RML_COMM_vprintf fp IntStr st InputStr VaList = Some (st, VaList) \<and>
     RML_COMM_LogMsg fp IntStr st Src LogLvl InputStr VaList = Some (st, VaList)"
  by (simp add: RML_COMM_printf_def RML_COMM_vprintf_def RML_COMM_LogMsg_def)

theorem no_output_before_init_witness:
  "Logger_InitDone boot_logger = 0 \<and>
   RML_COMM_printf exact_fpu stale_buffer boot_logger ''n=%d'' [VInt 42]
     = Some (boot_logger, [VInt 42]) \<and>
   RML_COMM_vprintf exact_fpu stale_buffer boot_logger ''n=%d'' [VInt 42]
     = Some (boot_logger, [VInt 42]) \<and>
   RML_COMM_LogMsg exact_fpu stale_buffer boot_logger ''loop'' 1 ''n=%d'' [VInt 42]
     = Some (boot_logger, [VInt 42]) \<and>
   sink boot_logger = []"
proof -
  have h: "Logger_InitDone boot_logger = 0"
    by (simp add: boot_logger_def)
  show ?thesis
    using h no_output_before_init [OF h, of exact_fpu stale_buffer "''n=%d''" "[VInt 42]" "''loop''" 1]
    by (simp add: boot_logger_def)
qed

text \<open>
  The gate opens with a successful \<^verbatim>\<open>RML_COMM_LoggerInit\<close> only: a baud rate of 0 or
  above the maximum leaves the state as it was.
\<close>

lemma LoggerInit_sets_flag:
  "Logger_InitDone (snd (RML_COMM_LoggerInit st u)) = 0
     \<longleftrightarrow> Logger_InitDone st = 0 \<and> (MaxBaudrate < BaudRate u \<or> BaudRate u = 0)"
  by (simp add: RML_COMM_LoggerInit_def)

lemma formatted_output_after_init:
  "RML_COMM_LogMsg exact_fpu stale_buffer ready_logger ''loop'' 1 ''n=%d'' [VInt 42]
     = Some (ready_logger\<lparr>sink := ''> [INFO] loop: n=42'' @ [CHR 0x0D, CHR 0x0A]\<rparr>, [])"
  by (simp add: RML_COMM_LogMsg_def LogLevel_Str_def ANSI_colour_def run_logger run_itoa)

section \<open>The value returned by the integer converters\<close>

text \<open>
  C2. The claim is that \<^verbatim>\<open>RML_COMM_utoa\<close> and \<^verbatim>\<open>RML_COMM_itoa\<close> return the length of
  the string they stored: 1 for the value 0 in base 10, 4 for -255 in base 10. The code
  returns \<^verbatim>\<open>ptr - ResultBuff\<close> after the reversal loop has moved \<^verbatim>\<open>ptr\<close> down to the
  middle of the string: the strings stored are "0" and "-255", the values returned are
  0 and 1.
\<close>

theorem integer_converters_return_midpoint:
  "fst (RML_COMM_utoa 0 stale_buffer 20 10) = 0 \<and>
   c_str 20 (snd (RML_COMM_utoa 0 stale_buffer 20 10)) = ''0'' \<and>
   fst (RML_COMM_itoa (- 255) stale_buffer 20 10) = 1 \<and>
   c_str 20 (snd (RML_COMM_itoa (- 255) stale_buffer 20 10)) = ''-255''"
  by (simp add: run_itoa)

section \<open>RML_COMM_ftoa on concrete inputs\<close>

text \<open>
  C1. The claim is that a converter whose buffer is smaller than the output with its
  terminator returns -1 and leaves the empty string. \<^verbatim>\<open>RML_COMM_ftoa\<close> does not: for
  1.5 with 2 decimal places ("1.50", five bytes with the terminator) and a capacity of 4
  it returns 4; for 12.0 with 1 decimal place and a capacity of 2 it returns -1 but
  leaves "12" in the two cells of the buffer and writes the terminator at offset 2,
  beyond the capacity.
\<close>

theorem ftoa_small_buffer:
  "fst (RML_COMM_ftoa exact_fpu (3 / 2) stale_buffer 4 2) = 4 \<and>
   snd (RML_COMM_ftoa exact_fpu (3 / 2) stale_buffer 4 2) 0 = NUL \<and>
   fst (RML_COMM_ftoa exact_fpu 12 stale_buffer 2 1) = - 1 \<and>
   map (snd (RML_COMM_ftoa exact_fpu 12 stale_buffer 2 1)) [0, 1, 2] = ''12'' @ [NUL]"
  by (simp add: run_ftoa)

text \<open>
  C5. The claim is that \<^verbatim>\<open>Afterpoint\<close> 0 stands for 2 decimal places, so that -3.5
  gives "-3.50". The code tests \<^verbatim>\<open>Afterpoint > 0\<close> and writes no decimal point and no
  decimal place otherwise: -3.5 gives "-3", of length 2.
\<close>

theorem ftoa_afterpoint_zero:
  "fst (RML_COMM_ftoa exact_fpu (- 7 / 2) stale_buffer 20 0) = 2 \<and>
   c_str 20 (snd (RML_COMM_ftoa exact_fpu (- 7 / 2) stale_buffer 20 0)) = ''-3''"
  by (simp add: run_ftoa)

text \<open>
  C6. The claim is that every negative value, also one between -1 and 0, is negated and
  gets a leading minus sign. The code takes the sign from the truncated whole part:
  for -0.5 the whole part is 0, nothing is negated and no sign is written, and the
  negative fraction gives the digit -5, stored as the character 43: the result is
  "0.+0".
\<close>

theorem ftoa_minus_half:
  "fst (RML_COMM_ftoa exact_fpu (- 1 / 2) stale_buffer 20 2) = 4 \<and>
   c_str 20 (snd (RML_COMM_ftoa exact_fpu (- 1 / 2) stale_buffer 20 2)) = ''0.+0''"
  by (simp add: run_ftoa)

text \<open>Where the whole part is negative the sign is there: -3.5 with 2 places.\<close>

lemma ftoa_minus_three_and_a_half:
  "c_str 20 (snd (RML_COMM_ftoa exact_fpu (- 7 / 2) stale_buffer 20 2)) = ''-3.50''"
  by (simp add: run_ftoa)

section \<open>A precision outside 1 to 6\<close>

text \<open>
  C7, as claimed: formatting \<^verbatim>\<open>%.7f\<close> echoes the characters '.' and '7'. It does not:
  the sink receives "7f", the 7 from the inner default branch and the f as an
  ordinary character; no '.' is written.
\<close>

theorem precision_seven_counterexample:
  "RML_COMM_vprintf exact_fpu stale_buffer ready_logger ''%.7f'' []
     = Some (ready_logger\<lparr>sink := ''7f''\<rparr>, []) \<and>
   CHR ''.'' \<notin> set (sink (ready_logger\<lparr>sink := ''7f''\<rparr>))"
  by (simp add: run_logger)

text \<open>
  C7, amended. Once the logger is initialised, formatting a string that starts with
  \<^verbatim>\<open>%.7f\<close> writes "7f" to the sink (the '%' and the '.' are dropped), reads no
  argument, and goes on with the rest of the string and the same arguments.
\<close>

theorem precision_seven_echo:
  "Logger_InitDone st \<noteq> 0 \<Longrightarrow>
     RML_COMM_vprintf fp IntStr st (''%.7f'' @ rest) args
       = RML_COMM_vprintf fp IntStr (st\<lparr>sink := sink st @ ''7f''\<rparr>) rest args"
proof -
  assume init: "Logger_InitDone st \<noteq> 0"
  have loop: "vprintf_loop fp (''%.7f'' @ rest) IntStr (sink st) args
      = vprintf_loop fp rest IntStr (sink st @ ''7f'') args"
    by (simp add: precision_digit_def)
  show ?thesis
    unfolding RML_COMM_vprintf_def loop using init by (simp split: option.split)
qed

theorem precision_seven_echo_witness:
  "Logger_InitDone ready_logger \<noteq> 0 \<and>
   RML_COMM_vprintf exact_fpu stale_buffer ready_logger (''%.7f'' @ ''%d|%u'') [VInt 42, VInt 7]
     = Some (ready_logger\<lparr>sink := ''7f42|7''\<rparr>, [])"
proof -
  have h: "Logger_InitDone ready_logger \<noteq> 0"
    by (simp add: run_logger)
  show ?thesis
    using h precision_seven_echo [OF h, of exact_fpu stale_buffer "''%d|%u''" "[VInt 42, VInt 7]"]
    by (simp add: run_logger run_itoa)
qed

section \<open>The integer converters in general\<close>

text \<open>
  From here on the loops are unfolded by hand, one step at a time.
\<close>

declare utoa_loop.simps [simp del] itoa_loop.simps [simp del] reverse_loop.simps [simp del]
  nat_digits_rev.simps [simp del] ftoa_whole.simps [simp del] ftoa_frac.simps [simp del]
  ReverseString_loop.simps [simp del]

lemma store_at_Nil: "store_at mem p [] = mem"
  by (rule ext) (auto simp: store_at_def)

lemma store_at_Cons: "store_at (mem(p := c)) (Suc p) xs = store_at mem p (c # xs)"
  by (rule ext) (auto simp: store_at_def nth_Cons')

lemma store_at_single: "store_at mem p [c] = mem(p := c)"
  by (rule ext) (auto simp: store_at_def)

lemma store_at_snoc: "(store_at mem p xs)(p + length xs := c) = store_at mem p (xs @ [c])"
  by (rule ext) (auto simp: store_at_def nth_append)

lemma digit_table_rev: "rev digit_table = digit_table"
  by (simp add: digit_table_def)

lemma digit_table_length: "length digit_table = 71"
  by (simp add: digit_table_def)

lemma digit_table_upper: "drop 35 digit_table = ''0123456789ABCDEFGHIJKLMNOPQRSTUVWXYZ''"
  by (simp add: digit_table_def)

lemma digit_table_plus: "d < 36 \<Longrightarrow> digit_table ! (35 + d) = digit_char d"
proof -
  assume "d < 36"
  have "digit_table ! (35 + d) = drop 35 digit_table ! d"
    by (simp add: digit_table_length)
  then show ?thesis
    by (simp add: digit_table_upper digit_char_def)
qed

lemma digit_table_minus: "d < 36 \<Longrightarrow> digit_table ! (35 - d) = digit_char d"
proof -
  assume d: "d < 36"
  have "digit_table ! (35 - d) = rev digit_table ! (35 - d)"
    by (simp add: digit_table_rev)
  also have "\<dots> = digit_table ! (35 + d)"
    using d by (simp add: rev_nth digit_table_length)
  finally show ?thesis
    using d by (simp add: digit_table_plus)
qed


lemma reverse_loop_spec:
  "0 \<le> a \<Longrightarrow> a \<le> b + 1 \<Longrightarrow>
     reverse_loop mem a b =
       (\<lambda>k. if a \<le> int k \<and> int k \<le> b then mem (nat (a + b - int k)) else mem k,
        (a + b) div 2)"
proof (induction mem a b rule: reverse_loop.induct)
  case (1 mem ptr1 ptr)
  show ?case
  proof (cases "ptr1 < ptr")
    case False
    with "1.prems" have "ptr1 = ptr \<or> ptr1 = ptr + 1"
      by linarith
    then have mid: "(ptr1 + ptr) div 2 = ptr"
      by auto
    have "(\<lambda>k. if ptr1 \<le> int k \<and> int k \<le> ptr then mem (nat (ptr1 + ptr - int k)) else mem k) = mem"
    proof (rule ext)
      fix k
      show "(if ptr1 \<le> int k \<and> int k \<le> ptr then mem (nat (ptr1 + ptr - int k)) else mem k) = mem k"
        using False by (auto intro: arg_cong [where f = mem])
    qed
    with False mid show ?thesis
      by (simp add: reverse_loop.simps)
  next
    case True
    define mem2 where "mem2 = (mem(nat ptr := mem (nat ptr1)))(nat ptr1 := mem (nat ptr))"
    have step: "reverse_loop mem ptr1 ptr = reverse_loop mem2 (ptr1 + 1) (ptr - 1)"
      using True by (simp add: reverse_loop.simps [of mem ptr1 ptr] mem2_def Let_def)
    have ih: "reverse_loop mem2 (ptr1 + 1) (ptr - 1) =
        (\<lambda>k. if ptr1 + 1 \<le> int k \<and> int k \<le> ptr - 1
              then mem2 (nat (ptr1 + 1 + (ptr - 1) - int k)) else mem2 k,
         (ptr1 + 1 + (ptr - 1)) div 2)"
      unfolding mem2_def
      by (rule "1.IH" [OF True refl refl refl]) (use "1.prems" True in linarith)+
    have "(\<lambda>k. if ptr1 + 1 \<le> int k \<and> int k \<le> ptr - 1
              then mem2 (nat (ptr1 + 1 + (ptr - 1) - int k)) else mem2 k)
        = (\<lambda>k. if ptr1 \<le> int k \<and> int k \<le> ptr then mem (nat (ptr1 + ptr - int k)) else mem k)"
    proof (rule ext)
      fix k
      consider "int k < ptr1" | "int k = ptr1" | "ptr1 < int k" "int k < ptr"
        | "int k = ptr" | "ptr < int k"
        by linarith
      then show "(if ptr1 + 1 \<le> int k \<and> int k \<le> ptr - 1
              then mem2 (nat (ptr1 + 1 + (ptr - 1) - int k)) else mem2 k)
        = (if ptr1 \<le> int k \<and> int k \<le> ptr then mem (nat (ptr1 + ptr - int k)) else mem k)"
      proof cases
        case 1
        with True "1.prems" show ?thesis by (auto simp: mem2_def)
      next
        case 2
        with True "1.prems" show ?thesis by (auto simp: mem2_def)
      next
        case 3
        with True "1.prems" have "nat (ptr1 + ptr - int k) \<noteq> nat ptr"
          "nat (ptr1 + ptr - int k) \<noteq> nat ptr1"
          by linarith+
        with 3 show ?thesis by (simp add: mem2_def)
      next
        case 4
        with True "1.prems" show ?thesis by (auto simp: mem2_def)
      next
        case 5
        with True "1.prems" show ?thesis by (auto simp: mem2_def)
      qed
    qed
    with step ih show ?thesis
      by simp
  qed
qed


lemma nat_digits_rev_unfold:
  "2 \<le> b \<Longrightarrow> nat_digits_rev b n =
     digit_char (n mod b) # (if n div b \<noteq> 0 then nat_digits_rev b (n div b) else [])"
  by (simp add: nat_digits_rev.simps [of b n])

lemma utoa_digit:
  fixes Value Base :: "32 word"
  assumes "2 \<le> Base" and "Base \<le> 36"
  shows "digit_table ! unat (35 + (Value - Value div Base * Base))
           = digit_char (unat Value mod unat Base)"
proof -
  have b: "unat Base \<le> 36" "2 \<le> unat Base"
    using assms by (simp_all add: word_le_nat_alt)
  have m: "Value - Value div Base * Base = Value mod Base"
    by (simp add: minus_div_mult_eq_mod)
  have lt: "unat (Value mod Base) < 36"
    using b by (simp add: unat_mod) (meson less_le_trans mod_less_divisor not_less zero_less_numeral less_le)
  then have "unat (35 + Value mod Base) = 35 + unat (Value mod Base)"
    by (simp add: unat_word_ariths)
  with m lt show ?thesis
    by (simp add: digit_table_plus unat_mod)
qed

lemma utoa_loop_store:
  fixes Value Base :: "32 word"
  assumes "2 \<le> Base" and "Base \<le> 36"
  shows "utoa_loop Value Base mem ptr =
          (store_at mem ptr (nat_digits_rev (unat Base) (unat Value)),
           ptr + length (nat_digits_rev (unat Base) (unat Value)))"
  using assms
proof (induction Value Base mem ptr rule: utoa_loop.induct)
  case (1 Value Base mem ptr)
  have b: "2 \<le> unat Base" and nb: "\<not> Base < 2"
    using "1.prems" by (simp_all add: word_le_nat_alt not_less)
  define c where "c = digit_char (unat Value mod unat Base)"
  have dig: "digit_table ! unat (35 + (Value - Value div Base * Base)) = c"
    using "1.prems" by (simp add: utoa_digit c_def)
  have q: "unat (Value div Base) = unat Value div unat Base"
    by (simp add: unat_div)
  have z: "Value div Base \<noteq> 0 \<longleftrightarrow> unat Value div unat Base \<noteq> 0"
    using q by (metis unat_eq_0)
  show ?case
  proof (cases "Value div Base \<noteq> 0")
    case True
    have "utoa_loop Value Base mem ptr = utoa_loop (Value div Base) Base (mem(ptr := c)) (ptr + 1)"
      using True nb dig by (simp add: utoa_loop.simps [of Value Base mem ptr])
    also have "\<dots> = (store_at (mem(ptr := c)) (ptr + 1)
                        (nat_digits_rev (unat Base) (unat (Value div Base))),
                      ptr + 1 + length (nat_digits_rev (unat Base) (unat (Value div Base))))"
      using "1.IH" [OF nb refl refl refl refl True "1.prems"] by (simp only: dig)
    finally have u: "utoa_loop Value Base mem ptr =
        (store_at (mem(ptr := c)) (Suc ptr) (nat_digits_rev (unat Base) (unat (Value div Base))),
         ptr + 1 + length (nat_digits_rev (unat Base) (unat (Value div Base))))"
      by (simp only: Suc_eq_plus1)
    have ds: "nat_digits_rev (unat Base) (unat Value)
        = c # nat_digits_rev (unat Base) (unat (Value div Base))"
      using True z b q by (simp add: nat_digits_rev_unfold [of "unat Base" "unat Value"] c_def)
    have "store_at (mem(ptr := c)) (Suc ptr) (nat_digits_rev (unat Base) (unat (Value div Base)))
        = store_at mem ptr (c # nat_digits_rev (unat Base) (unat (Value div Base)))"
      by (rule store_at_Cons)
    moreover have "ptr + 1 + length (nat_digits_rev (unat Base) (unat (Value div Base)))
        = ptr + length (c # nat_digits_rev (unat Base) (unat (Value div Base)))"
      by simp
    ultimately show ?thesis
      unfolding u ds by (rule arg_cong2 [where f = Pair])
  next
    case False
    have u: "utoa_loop Value Base mem ptr = (mem(ptr := c), ptr + 1)"
      using False nb dig by (simp add: utoa_loop.simps [of Value Base mem ptr])
    have ds: "nat_digits_rev (unat Base) (unat Value) = [c]"
      using False z b by (simp add: nat_digits_rev_unfold [of "unat Base" "unat Value"] c_def)
    have "mem(ptr := c) = store_at mem ptr [c]"
      by (rule store_at_single [symmetric])
    moreover have "ptr + 1 = ptr + length [c]"
      by simp
    ultimately show ?thesis
      unfolding u ds by (rule arg_cong2 [where f = Pair])
  qed
qed


lemma c_str_store_at:
  assumes "NUL \<notin> set xs" and "length xs < n"
  shows "c_str n (store_at mem 0 (xs @ [NUL])) = xs"
proof -
  let ?f = "store_at mem 0 (xs @ [NUL])"
  have split: "[0..<n] = [0..<length xs] @ length xs # [Suc (length xs)..<n]"
  proof -
    have "[0..<n] = [0..<length xs] @ [length xs..<n]"
      using assms(2) upt_add_eq_append [of 0 "length xs" "n - length xs"] by simp
    moreover have "[length xs..<n] = length xs # [Suc (length xs)..<n]"
      using assms(2) by (simp add: upt_conv_Cons)
    ultimately show ?thesis
      by simp
  qed
  have pre: "map ?f [0..<length xs] = xs"
    by (rule nth_equalityI) (simp_all add: store_at_def nth_append)
  have at: "?f (length xs) = NUL"
    by (simp add: store_at_def nth_append)
  have "map ?f [0..<n] = xs @ NUL # map ?f [Suc (length xs)..<n]"
    by (simp only: split map_append list.map pre at)
  then have "c_str n ?f = takeWhile (\<lambda>c. c \<noteq> NUL) (xs @ NUL # map ?f [Suc (length xs)..<n])"
    by (simp only: c_str_def)
  also have "\<dots> = xs @ takeWhile (\<lambda>c. c \<noteq> NUL) (NUL # map ?f [Suc (length xs)..<n])"
    by (rule takeWhile_append2) (use assms(1) in auto)
  also have "\<dots> = xs"
    by simp
  finally show ?thesis .
qed

lemma digit_alphabet:
  "d < 36 \<Longrightarrow> digit_char d \<in> set ''0123456789ABCDEFGHIJKLMNOPQRSTUVWXYZ''"
  unfolding digit_char_def by (rule nth_mem) simp

lemma digit_char_not_NUL: "d < 36 \<Longrightarrow> digit_char d \<noteq> NUL"
  using digit_alphabet [of d] by auto

lemma digit_char_not_minus: "d < 36 \<Longrightarrow> digit_char d \<noteq> CHR ''-''"
  using digit_alphabet [of d] by auto

lemma digit_value_table:
  "map (\<lambda>d. digit_value (digit_char d)) [0..<36] = map Some [0..<36]"
  by (simp add: upt_rec digit_value_def digit_char_def)

lemma digit_value_digit_char: "d < 36 \<Longrightarrow> digit_value (digit_char d) = Some d"
proof -
  assume d: "d < 36"
  have "map (\<lambda>d. digit_value (digit_char d)) [0..<36] ! d = map Some [0..<36] ! d"
    by (simp only: digit_value_table)
  with d show ?thesis
    by simp
qed


lemma nat_digits_rev_nonempty: "2 \<le> b \<Longrightarrow> nat_digits_rev b n \<noteq> []"
  by (simp add: nat_digits_rev_unfold [of b n])

lemma nat_digits_rev_chars:
  "2 \<le> b \<Longrightarrow> c \<in> set (nat_digits_rev b n) \<Longrightarrow> \<exists>d<b. c = digit_char d"
proof (induction b n rule: nat_digits_rev.induct)
  case (1 b n)
  have m: "n mod b < b"
    using "1.prems"(1) by simp
  from "1.prems" consider "c = digit_char (n mod b)"
    | "n div b \<noteq> 0" "c \<in> set (nat_digits_rev b (n div b))"
    by (auto simp: nat_digits_rev_unfold [of b n] split: if_splits)
  then show ?case
  proof cases
    case 1
    with m show ?thesis by blast
  next
    case 2
    with "1.IH" "1.prems"(1) show ?thesis by simp
  qed
qed

lemma nat_digits_rev_no_NUL:
  assumes "2 \<le> b" and "b \<le> 36"
  shows "NUL \<notin> set (nat_digits_rev b n)"
proof
  assume "NUL \<in> set (nat_digits_rev b n)"
  then obtain d where "d < b" "NUL = digit_char d"
    using nat_digits_rev_chars [OF assms(1)] by blast
  with assms(2) show False
    using digit_char_not_NUL [of d] by simp
qed

lemma nat_digits_rev_no_minus:
  assumes "2 \<le> b" and "b \<le> 36"
  shows "CHR ''-'' \<notin> set (nat_digits_rev b n)"
proof
  assume "CHR ''-'' \<in> set (nat_digits_rev b n)"
  then obtain d where "d < b" "CHR ''-'' = digit_char d"
    using nat_digits_rev_chars [OF assms(1)] by blast
  with assms(2) show False
    using digit_char_not_minus [of d] by simp
qed

lemma parse_digits_append:
  "parse_digits b (xs @ ys) acc =
     (case parse_digits b xs acc of None \<Rightarrow> None | Some a \<Rightarrow> parse_digits b ys a)"
  by (induction xs arbitrary: acc) (auto split: option.splits)

lemma parse_rev_digits:
  "2 \<le> b \<Longrightarrow> b \<le> 36 \<Longrightarrow> parse_digits b (rev (nat_digits_rev b n)) 0 = Some n"
proof (induction b n rule: nat_digits_rev.induct)
  case (1 b n)
  have d: "n mod b < b" "n mod b < 36"
    using "1.prems" by (simp, metis less_le_trans mod_less_divisor not_less zero_less_numeral less_le)
  have last: "parse_digits b [digit_char (n mod b)] a = Some (a * b + n mod b)" for a
    using d by (simp add: digit_value_digit_char)
  show ?case
  proof (cases "n div b \<noteq> 0")
    case True
    have "parse_digits b (rev (nat_digits_rev b (n div b))) 0 = Some (n div b)"
      using "1.IH" "1.prems" True by simp
    then show ?thesis
      using True "1.prems"
      by (simp add: nat_digits_rev_unfold [of b n] parse_digits_append last del: parse_digits.simps)
  next
    case False
    then have "n mod b = n"
      by (metis div_mult_mod_eq add_cancel_left_left mult_zero_left)
    with last [of 0] have "parse_digits b [digit_char (n mod b)] 0 = Some n"
      by simp
    with False "1.prems" show ?thesis
      by (simp add: nat_digits_rev_unfold [of b n] del: parse_digits.simps)
  qed
qed

lemma nat_digits_rev_length:
  "2 \<le> b \<Longrightarrow> n < 2 ^ k \<Longrightarrow> length (nat_digits_rev b n) \<le> max 1 k"
proof (induction k arbitrary: n)
  case 0
  then show ?case
    by (simp add: nat_digits_rev_unfold [of b 0])
next
  case (Suc k)
  have "n div b \<le> n div 2"
    using Suc.prems(1) by (simp add: div_le_mono2)
  also have "\<dots> < 2 ^ k"
    using Suc.prems(2) by simp
  finally have q: "n div b < 2 ^ k" .
  show ?case
  proof (cases "n div b = 0")
    case True
    with Suc.prems show ?thesis
      by (simp add: nat_digits_rev_unfold [of b n])
  next
    case False
    with q have "0 < k"
      by (cases k) simp_all
    moreover have "length (nat_digits_rev b (n div b)) \<le> max 1 k"
      using Suc.IH [OF Suc.prems(1) q] .
    ultimately show ?thesis
      using False Suc.prems by (simp add: nat_digits_rev_unfold [of b n])
  qed
qed


lemma reverse_terminated:
  assumes "xs \<noteq> []"
  shows "reverse_loop ((store_at mem 0 xs)(length xs := NUL)) 0 (int (length xs) - 1)
           = (store_at mem 0 (rev xs @ [NUL]), int ((length xs - 1) div 2))"
proof -
  let ?n = "length xs"
  let ?m = "(store_at mem 0 xs)(?n := NUL)"
  have n: "0 < ?n"
    using assms by simp
  have spec: "reverse_loop ?m 0 (int ?n - 1) =
      (\<lambda>k. if 0 \<le> int k \<and> int k \<le> int ?n - 1 then ?m (nat (0 + (int ?n - 1) - int k)) else ?m k,
       (0 + (int ?n - 1)) div 2)"
    by (rule reverse_loop_spec) simp_all
  have f: "(\<lambda>k. if 0 \<le> int k \<and> int k \<le> int ?n - 1 then ?m (nat (0 + (int ?n - 1) - int k)) else ?m k)
      = store_at mem 0 (rev xs @ [NUL])"
  proof (rule ext)
    fix k
    consider "k < ?n" | "k = ?n" | "?n < k"
      by linarith
    then show "(if 0 \<le> int k \<and> int k \<le> int ?n - 1 then ?m (nat (0 + (int ?n - 1) - int k)) else ?m k)
        = store_at mem 0 (rev xs @ [NUL]) k"
    proof cases
      case 1
      then have "nat (0 + (int ?n - 1) - int k) = ?n - 1 - k" "?n - 1 - k < ?n"
        by linarith+
      with 1 show ?thesis
        by (simp add: store_at_def nth_append rev_nth)
    next
      case 2
      then show ?thesis
        by (simp add: store_at_def nth_append)
    next
      case 3
      then show ?thesis
        by (simp add: store_at_def)
    qed
  qed
  have "int ?n - 1 = int (?n - 1)"
    using n by linarith
  then have r: "(0 + (int ?n - 1)) div 2 = int ((?n - 1) div 2)"
    by (simp only: add_0 zdiv_int of_nat_numeral)
  show ?thesis
    unfolding spec by (rule arg_cong2 [where f = Pair]) (rule f, rule r)
qed

lemma ucast_base:
  fixes Base :: "8 word"
  assumes "2 \<le> Base" and "Base \<le> 36"
  shows "2 \<le> (ucast Base :: 32 word)" and "(ucast Base :: 32 word) \<le> 36"
    and "unat (ucast Base :: 32 word) = unat Base" and "2 \<le> unat Base" and "unat Base \<le> 36"
proof -
  have "unat Base < 2 ^ 8"
    using unsigned_less [of Base, where ?'a = nat] by simp
  then have "unat Base < 2 ^ 32"
    by simp
  then show u: "unat (ucast Base :: 32 word) = unat Base"
    by (simp add: unsigned_ucast_eq take_bit_nat_eq_self)
  show b: "2 \<le> unat Base" "unat Base \<le> 36"
    using assms by (simp_all add: word_le_nat_alt)
  show "2 \<le> (ucast Base :: 32 word)" "(ucast Base :: 32 word) \<le> 36"
    using b u by (simp_all add: word_le_nat_alt)
qed

lemma utoa_result:
  fixes Base :: "8 word"
  assumes "2 \<le> Base" and "Base \<le> 36"
  shows "RML_COMM_utoa Value mem cap Base =
          (let ds = nat_digits_rev (unat Base) (unat Value)
           in if cap \<le> length ds then (- 1, (store_at mem 0 ds)(0 := NUL))
              else (int ((length ds - 1) div 2), store_at mem 0 (rev ds @ [NUL])))"
proof -
  define ds where "ds = nat_digits_rev (unat Base) (unat Value)"
  have ne: "ds \<noteq> []"
    using ucast_base(4) [OF assms] by (simp add: ds_def nat_digits_rev_nonempty)
  have valid: "\<not> (Base < 2 \<or> 36 < Base)"
    using assms by (simp add: not_less)
  have loop: "utoa_loop Value (ucast Base) mem 0 = (store_at mem 0 ds, length ds)"
    using utoa_loop_store [OF ucast_base(1,2) [OF assms], of Value mem 0]
    by (simp only: ucast_base(3) [OF assms] ds_def add_0)
  show ?thesis
  proof (cases "cap \<le> length ds")
    case True
    then show ?thesis
      unfolding RML_COMM_utoa_def loop ds_def [symmetric] using valid
      by (simp only: if_False if_True Let_def prod.case)
  next
    case False
    then show ?thesis
      unfolding RML_COMM_utoa_def loop ds_def [symmetric] using valid
      by (simp only: if_False if_True Let_def prod.case reverse_terminated [OF ne])
  qed
qed


text \<open>
  C3. For every base from 2 to 36 and every 32-bit value, a capacity of 33 is enough for
  \<^verbatim>\<open>RML_COMM_utoa\<close> to succeed, and whenever it succeeds (it did not return -1), reading
  the stored string back in the same base, over the digits 0-9A-Z, gives the value.
\<close>

theorem utoa_roundtrip:
  "2 \<le> Base \<Longrightarrow> Base \<le> 36 \<Longrightarrow>
     (33 \<le> cap \<longrightarrow> fst (RML_COMM_utoa Value mem cap Base) \<noteq> - 1) \<and>
     (fst (RML_COMM_utoa Value mem cap Base) \<noteq> - 1 \<longrightarrow>
        reparse (unat Base) (c_str cap (snd (RML_COMM_utoa Value mem cap Base)))
          = Some (unat Value))"
proof -
  assume base: "2 \<le> Base" "Base \<le> 36"
  define ds where "ds = nat_digits_rev (unat Base) (unat Value)"
  note b = ucast_base(4,5) [OF base]
  have res: "RML_COMM_utoa Value mem cap Base =
      (if cap \<le> length ds then (- 1, (store_at mem 0 ds)(0 := NUL))
       else (int ((length ds - 1) div 2), store_at mem 0 (rev ds @ [NUL])))"
    using utoa_result [OF base, of Value mem cap] by (simp only: Let_def ds_def)
  have "unat Value < 2 ^ 32"
    using unsigned_less [of Value, where ?'a = nat] by simp
  then have len: "length ds \<le> 32"
    using nat_digits_rev_length [OF b(1), of "unat Value" 32] by (simp add: ds_def)
  have large: "fst (RML_COMM_utoa Value mem cap Base) \<noteq> - 1" if "33 \<le> cap"
    using that len by (simp add: res)
  have reread: "reparse (unat Base) (c_str cap (snd (RML_COMM_utoa Value mem cap Base)))
      = Some (unat Value)" if ok: "fst (RML_COMM_utoa Value mem cap Base) \<noteq> - 1"
  proof -
    have fits: "length ds < cap"
      using ok by (simp add: res split: if_splits)
    then have "snd (RML_COMM_utoa Value mem cap Base) = store_at mem 0 (rev ds @ [NUL])"
      by (simp add: res)
    moreover have "c_str cap (store_at mem 0 (rev ds @ [NUL])) = rev ds"
      using fits nat_digits_rev_no_NUL [OF b, of "unat Value"]
      by (intro c_str_store_at) (simp_all add: ds_def)
    moreover have "rev ds \<noteq> []"
      using nat_digits_rev_nonempty [OF b(1), of "unat Value"] by (simp add: ds_def)
    ultimately show ?thesis
      using parse_rev_digits [OF b, of "unat Value"] by (simp add: reparse_def ds_def)
  qed
  from large reread show ?thesis
    by blast
qed

theorem utoa_roundtrip_witness:
  "(2 :: 8 word) \<le> 16 \<and> (16 :: 8 word) \<le> 36 \<and> (33 :: nat) \<le> 40 \<and>
   fst (RML_COMM_utoa 255 stale_buffer 40 16) \<noteq> - 1 \<and>
   c_str 40 (snd (RML_COMM_utoa 255 stale_buffer 40 16)) = ''FF'' \<and>
   reparse 16 (c_str 40 (snd (RML_COMM_utoa 255 stale_buffer 40 16))) = Some 255"
proof -
  have s: "c_str 40 (snd (RML_COMM_utoa 255 stale_buffer 40 16)) = ''FF''"
    by (simp add: run_itoa)
  have h: "(2 :: 8 word) \<le> 16" "(16 :: 8 word) \<le> 36"
    by simp_all
  show ?thesis
    using h s utoa_roundtrip [OF h, of 40 255 stale_buffer] by simp
qed


lemma abs_sdiv_int: "0 < l \<Longrightarrow> \<bar>k sdiv l\<bar> = \<bar>k\<bar> div l" for k l :: int
proof -
  assume l: "0 < l"
  then have nn: "0 \<le> \<bar>k\<bar> div l"
    by (simp add: pos_imp_zdiv_nonneg_iff)
  consider "k < 0" | "k = 0" | "0 < k"
    by linarith
  then show ?thesis
  proof cases
    case 1
    with l nn show ?thesis by (simp add: signed_divide_int_def)
  next
    case 2
    then show ?thesis by simp
  next
    case 3
    with l nn show ?thesis by (simp add: signed_divide_int_def)
  qed
qed

lemma itoa_step:
  fixes Value :: "32 word" and Base :: "8 word"
  assumes "2 \<le> Base" and "Base \<le> 36"
  defines "Value' \<equiv> (word_of_int (sint Value sdiv uint Base) :: 32 word)"
  shows "digit_table ! nat (35 + (sint Value - sint Value' * uint Base))
           = digit_char (nat \<bar>sint Value\<bar> mod unat Base)"
    and "nat \<bar>sint Value'\<bar> = nat \<bar>sint Value\<bar> div unat Base"
    and "Value' \<noteq> 0 \<longleftrightarrow> nat \<bar>sint Value\<bar> div unat Base \<noteq> 0"
proof -
  define k where "k = sint Value"
  define b where "b = uint Base"
  have b: "2 \<le> b" "b \<le> 36"
    using assms(1,2) by (simp_all add: b_def word_le_def)
  have ub: "unat Base = nat b"
    by (simp add: b_def)
  have r: "- (2 ^ 31) \<le> k" "k < 2 ^ 31"
    using sint_ge [of Value] sint_lt [of Value] by (simp_all add: k_def)
  have a: "\<bar>k sdiv b\<bar> = \<bar>k\<bar> div b"
    using b by (intro abs_sdiv_int) simp
  have "\<bar>k\<bar> div b \<le> \<bar>k\<bar> div 2"
    using b by (intro zdiv_mono2) simp_all
  also have "\<dots> < 2 ^ 31"
    using r by simp
  finally have "\<bar>k sdiv b\<bar> < 2 ^ 31"
    using a by simp
  then have s': "sint Value' = k sdiv b"
    by (simp add: Value'_def k_def [symmetric] b_def [symmetric] sint_sbintrunc'
        signed_take_bit_int_eq_self)
  have m: "k - k sdiv b * b = sgn k * (\<bar>k\<bar> mod b)"
    using b by (simp add: minus_sdiv_mult_eq_smod signed_modulo_int_def)
  have "\<bar>k\<bar> mod b < b"
    using b by (intro pos_mod_bound) simp
  moreover have "0 \<le> \<bar>k\<bar> mod b"
    using b by (intro pos_mod_sign) simp
  ultimately have lt: "\<bar>k\<bar> mod b < 36" "0 \<le> \<bar>k\<bar> mod b"
    using b by linarith+
  have nm: "nat (\<bar>k\<bar> mod b) = nat \<bar>k\<bar> mod nat b"
    using b by (simp add: nat_mod_distrib)
  have d36: "nat (\<bar>k\<bar> mod b) < 36"
    using lt by simp
  show "digit_table ! nat (35 + (sint Value - sint Value' * uint Base))
      = digit_char (nat \<bar>sint Value\<bar> mod unat Base)"
  proof (cases "k < 0")
    case True
    then have "nat (35 + (k - k sdiv b * b)) = 35 - nat (\<bar>k\<bar> mod b)"
      using lt by (simp add: m)
    then show ?thesis
      using d36 by (simp add: s' k_def [symmetric] b_def [symmetric] ub nm [symmetric]
          digit_table_minus)
  next
    case False
    then have "k - k sdiv b * b = \<bar>k\<bar> mod b"
      by (cases "k = 0") (simp_all add: m)
    then have "nat (35 + (k - k sdiv b * b)) = 35 + nat (\<bar>k\<bar> mod b)"
      using lt by simp
    then show ?thesis
      using d36 by (simp add: s' k_def [symmetric] b_def [symmetric] ub nm [symmetric]
          digit_table_plus)
  qed
  show q: "nat \<bar>sint Value'\<bar> = nat \<bar>sint Value\<bar> div unat Base"
    using b by (simp add: s' a k_def [symmetric] ub nat_div_distrib)
  have "Value' = 0 \<longleftrightarrow> sint Value' = 0"
    by (simp add: signed_eq_0_iff)
  also have "\<dots> \<longleftrightarrow> nat \<bar>sint Value'\<bar> = 0"
    by simp
  finally show "Value' \<noteq> 0 \<longleftrightarrow> nat \<bar>sint Value\<bar> div unat Base \<noteq> 0"
    by (simp only: q)
qed


lemma itoa_loop_store:
  fixes Value :: "32 word" and Base :: "8 word"
  assumes "2 \<le> Base" and "Base \<le> 36"
  shows "itoa_loop Value Base mem ptr =
          (store_at mem ptr (nat_digits_rev (unat Base) (nat \<bar>sint Value\<bar>)),
           ptr + length (nat_digits_rev (unat Base) (nat \<bar>sint Value\<bar>)))"
  using assms
proof (induction Value Base mem ptr rule: itoa_loop.induct)
  case (1 Value Base mem ptr)
  define Value' where "Value' = (word_of_int (sint Value sdiv uint Base) :: 32 word)"
  define c where "c = digit_char (nat \<bar>sint Value\<bar> mod unat Base)"
  have b: "2 \<le> unat Base" and nb: "\<not> Base < 2"
    using "1.prems" by (simp_all add: word_le_nat_alt not_less)
  note step = itoa_step [OF "1.prems", of Value, folded Value'_def]
  have dig: "digit_table ! nat (35 + (sint Value - sint Value' * uint Base)) = c"
    by (simp only: step(1) c_def)
  show ?case
  proof (cases "Value' \<noteq> 0")
    case True
    have "itoa_loop Value Base mem ptr = itoa_loop Value' Base (mem(ptr := c)) (ptr + 1)"
      using True nb dig
      by (simp add: itoa_loop.simps [of Value Base mem ptr] Value'_def [symmetric])
    also have "\<dots> = (store_at (mem(ptr := c)) (ptr + 1)
                        (nat_digits_rev (unat Base) (nat \<bar>sint Value'\<bar>)),
                      ptr + 1 + length (nat_digits_rev (unat Base) (nat \<bar>sint Value'\<bar>)))"
    proof -
      have nz: "(word_of_int (sint Value sdiv uint Base) :: 32 word) \<noteq> 0"
        using True by (simp add: Value'_def)
      show ?thesis
        using "1.IH" [OF nb refl refl refl refl nz "1.prems", folded Value'_def]
        by (simp only: dig)
    qed
    finally have u: "itoa_loop Value Base mem ptr =
        (store_at (mem(ptr := c)) (Suc ptr) (nat_digits_rev (unat Base) (nat \<bar>sint Value'\<bar>)),
         ptr + 1 + length (nat_digits_rev (unat Base) (nat \<bar>sint Value'\<bar>)))"
      by (simp only: Suc_eq_plus1)
    have ds: "nat_digits_rev (unat Base) (nat \<bar>sint Value\<bar>)
        = c # nat_digits_rev (unat Base) (nat \<bar>sint Value'\<bar>)"
      using True step(2,3) b
      by (simp add: nat_digits_rev_unfold [of "unat Base" "nat \<bar>sint Value\<bar>"] c_def)
    have "store_at (mem(ptr := c)) (Suc ptr) (nat_digits_rev (unat Base) (nat \<bar>sint Value'\<bar>))
        = store_at mem ptr (c # nat_digits_rev (unat Base) (nat \<bar>sint Value'\<bar>))"
      by (rule store_at_Cons)
    moreover have "ptr + 1 + length (nat_digits_rev (unat Base) (nat \<bar>sint Value'\<bar>))
        = ptr + length (c # nat_digits_rev (unat Base) (nat \<bar>sint Value'\<bar>))"
      by simp
    ultimately show ?thesis
      unfolding u ds by (rule arg_cong2 [where f = Pair])
  next
    case False
    have u: "itoa_loop Value Base mem ptr = (mem(ptr := c), ptr + 1)"
      using False nb dig
      by (simp add: itoa_loop.simps [of Value Base mem ptr] Value'_def [symmetric])
    have ds: "nat_digits_rev (unat Base) (nat \<bar>sint Value\<bar>) = [c]"
      using False step(3) b
      by (simp add: nat_digits_rev_unfold [of "unat Base" "nat \<bar>sint Value\<bar>"] c_def)
    have "mem(ptr := c) = store_at mem ptr [c]"
      by (rule store_at_single [symmetric])
    moreover have "ptr + 1 = ptr + length [c]"
      by simp
    ultimately show ?thesis
      unfolding u ds by (rule arg_cong2 [where f = Pair])
  qed
qed


lemma itoa_result:
  fixes Base :: "8 word"
  assumes "2 \<le> Base" and "Base \<le> 36"
  shows "RML_COMM_itoa Value mem cap Base =
          (let ds = nat_digits_rev (unat Base) (nat \<bar>sint Value\<bar>);
               xs = (if sint Value < 0 \<and> Base = 10 then ds @ ''-'' else ds)
           in if cap \<le> length xs then (- 1, (store_at mem 0 xs)(0 := NUL))
              else (int ((length xs - 1) div 2), store_at mem 0 (rev xs @ [NUL])))"
proof -
  define ds where "ds = nat_digits_rev (unat Base) (nat \<bar>sint Value\<bar>)"
  define xs where "xs = (if sint Value < 0 \<and> Base = 10 then ds @ ''-'' else ds)"
  have "ds \<noteq> []"
    using ucast_base(4) [OF assms] by (simp add: ds_def nat_digits_rev_nonempty)
  then have ne: "xs \<noteq> []"
    by (simp add: xs_def)
  have valid: "\<not> (Base < 2 \<or> 36 < Base)"
    using assms by (simp add: not_less)
  have loop: "itoa_loop Value Base mem 0 = (store_at mem 0 ds, length ds)"
    using itoa_loop_store [OF assms, of Value mem 0] by (simp only: ds_def add_0)
  have sign: "(if sint Value < 0 \<and> Base = 10
               then ((store_at mem 0 ds)(length ds := CHR ''-''), length ds + 1)
               else (store_at mem 0 ds, length ds))
      = (store_at mem 0 xs, length xs)"
  proof (cases "sint Value < 0 \<and> Base = 10")
    case True
    have "(store_at mem 0 ds)(0 + length ds := CHR ''-'') = store_at mem 0 (ds @ ''-'')"
      by (rule store_at_snoc)
    then have "(store_at mem 0 ds)(length ds := CHR ''-'') = store_at mem 0 (ds @ ''-'')"
      by (simp only: add_0)
    moreover have "length ds + 1 = length (ds @ ''-'')"
      by simp
    ultimately have "((store_at mem 0 ds)(length ds := CHR ''-''), length ds + 1)
        = (store_at mem 0 (ds @ ''-''), length (ds @ ''-''))"
      by (rule arg_cong2 [where f = Pair])
    moreover have "xs = ds @ ''-''"
      using True by (simp add: xs_def)
    ultimately show ?thesis
      by (simp only: if_P [OF True] if_True)
  next
    case False
    moreover have "xs = ds"
      using False by (simp add: xs_def)
    ultimately show ?thesis
      by (simp only: if_not_P [OF False] if_False)
  qed
  have start: "RML_COMM_itoa Value mem cap Base =
      (case (store_at mem 0 xs, length xs) of (mem, ptr) \<Rightarrow>
         if cap \<le> ptr then (- 1, mem(0 := NUL))
         else let mem' = mem(ptr := NUL);
                  (mem'', ptr') = reverse_loop mem' 0 (int ptr - 1)
              in (ptr', mem''))"
    unfolding RML_COMM_itoa_def using valid
    by (simp only: if_False Let_def loop prod.case sign)
  show ?thesis
  proof (cases "cap \<le> length xs")
    case True
    then show ?thesis
      unfolding start ds_def [symmetric] Let_def xs_def [symmetric]
      by (simp only: if_True prod.case)
  next
    case False
    then show ?thesis
      unfolding start ds_def [symmetric] Let_def xs_def [symmetric]
      by (simp only: if_False prod.case reverse_terminated [OF ne])
  qed
qed

text \<open>
  C8. With a valid base, whenever \<^verbatim>\<open>RML_COMM_itoa\<close> succeeds the stored string is the
  digits of the magnitude, most significant first, with a '-' in front exactly when the
  value is negative and the base is 10; no digit is a '-', so in any other base a
  negative value has no sign. The witness runs -255 in base 10 ("-255"), 255 in base 16
  ("FF") and -255 in base 16 ("FF" again).
\<close>

theorem itoa_sign:
  "2 \<le> Base \<Longrightarrow> Base \<le> 36 \<Longrightarrow> fst (RML_COMM_itoa Value mem cap Base) \<noteq> - 1 \<Longrightarrow>
     c_str cap (snd (RML_COMM_itoa Value mem cap Base))
       = (if sint Value < 0 \<and> Base = 10 then ''-'' else [])
           @ rev (nat_digits_rev (unat Base) (nat \<bar>sint Value\<bar>)) \<and>
     CHR ''-'' \<notin> set (nat_digits_rev (unat Base) (nat \<bar>sint Value\<bar>))"
proof -
  assume base: "2 \<le> Base" "Base \<le> 36"
    and ok: "fst (RML_COMM_itoa Value mem cap Base) \<noteq> - 1"
  define ds where "ds = nat_digits_rev (unat Base) (nat \<bar>sint Value\<bar>)"
  define xs where "xs = (if sint Value < 0 \<and> Base = 10 then ds @ ''-'' else ds)"
  note b = ucast_base(4,5) [OF base]
  have res: "RML_COMM_itoa Value mem cap Base =
      (if cap \<le> length xs then (- 1, (store_at mem 0 xs)(0 := NUL))
       else (int ((length xs - 1) div 2), store_at mem 0 (rev xs @ [NUL])))"
    using itoa_result [OF base, of Value mem cap] by (simp only: Let_def ds_def xs_def)
  have fits: "length xs < cap"
    using ok by (simp add: res split: if_splits)
  then have "snd (RML_COMM_itoa Value mem cap Base) = store_at mem 0 (rev xs @ [NUL])"
    by (simp add: res)
  moreover have "NUL \<notin> set ds"
    unfolding ds_def by (rule nat_digits_rev_no_NUL [OF b])
  then have "NUL \<notin> set xs"
    by (simp add: xs_def)
  then have "c_str cap (store_at mem 0 (rev xs @ [NUL])) = rev xs"
    using fits by (intro c_str_store_at) simp_all
  moreover have "rev xs = (if sint Value < 0 \<and> Base = 10 then ''-'' else []) @ rev ds"
    by (simp add: xs_def)
  ultimately have "c_str cap (snd (RML_COMM_itoa Value mem cap Base))
      = (if sint Value < 0 \<and> Base = 10 then ''-'' else []) @ rev ds"
    by (simp only:)
  moreover have "CHR ''-'' \<notin> set ds"
    unfolding ds_def by (rule nat_digits_rev_no_minus [OF b])
  ultimately show ?thesis
    unfolding ds_def by (rule conjI)
qed

theorem itoa_sign_witness:
  "(2 :: 8 word) \<le> 10 \<and> (10 :: 8 word) \<le> 36 \<and> (2 :: 8 word) \<le> 16 \<and> (16 :: 8 word) \<le> 36 \<and>
   fst (RML_COMM_itoa (- 255) stale_buffer 20 10) \<noteq> - 1 \<and>
   c_str 20 (snd (RML_COMM_itoa (- 255) stale_buffer 20 10)) = ''-255'' \<and>
   fst (RML_COMM_itoa 255 stale_buffer 20 16) \<noteq> - 1 \<and>
   c_str 20 (snd (RML_COMM_itoa 255 stale_buffer 20 16)) = ''FF'' \<and>
   fst (RML_COMM_itoa (- 255) stale_buffer 20 16) \<noteq> - 1 \<and>
   c_str 20 (snd (RML_COMM_itoa (- 255) stale_buffer 20 16)) = ''FF''"
proof -
  have h10: "(2 :: 8 word) \<le> 10" "(10 :: 8 word) \<le> 36"
    and h16: "(2 :: 8 word) \<le> 16" "(16 :: 8 word) \<le> 36"
    by simp_all
  have ok1: "fst (RML_COMM_itoa (- 255) stale_buffer 20 10) \<noteq> - 1"
    and ok2: "fst (RML_COMM_itoa 255 stale_buffer 20 16) \<noteq> - 1"
    and ok3: "fst (RML_COMM_itoa (- 255) stale_buffer 20 16) \<noteq> - 1"
    by (simp_all add: run_itoa)
  have d10: "rev (nat_digits_rev 10 255) = ''255''" and d16: "rev (nat_digits_rev 16 255) = ''FF''"
    by (simp_all add: nat_digits_rev.simps digit_char_def)
  show ?thesis
    using h10 h16 ok1 ok2 ok3 d10 d16
      itoa_sign [OF h10 ok1] itoa_sign [OF h16 ok2] itoa_sign [OF h16 ok3]
    by simp
qed

section \<open>Too small a buffer, and the value returned, in general\<close>

text \<open>
  The part of C1 that holds: with a valid base and a capacity that does not exceed the
  number of characters produced, \<^verbatim>\<open>RML_COMM_utoa\<close> and \<^verbatim>\<open>RML_COMM_itoa\<close> return -1 and
  leave the terminator in the first cell.
\<close>

lemma utoa_small_buffer:
  assumes "2 \<le> Base" and "Base \<le> 36"
    and "cap \<le> length (nat_digits_rev (unat Base) (unat Value))"
  shows "fst (RML_COMM_utoa Value mem cap Base) = - 1"
    and "snd (RML_COMM_utoa Value mem cap Base) 0 = NUL"
  using assms(3) by (simp_all add: utoa_result [OF assms(1,2)] Let_def)

lemma itoa_small_buffer:
  assumes "2 \<le> Base" and "Base \<le> 36"
    and "cap \<le> length (nat_digits_rev (unat Base) (nat \<bar>sint Value\<bar>))
                 + (if sint Value < 0 \<and> Base = 10 then 1 else 0)"
  shows "fst (RML_COMM_itoa Value mem cap Base) = - 1"
    and "snd (RML_COMM_itoa Value mem cap Base) 0 = NUL"
proof -
  define ds where "ds = nat_digits_rev (unat Base) (nat \<bar>sint Value\<bar>)"
  define xs where "xs = (if sint Value < 0 \<and> Base = 10 then ds @ ''-'' else ds)"
  have res: "RML_COMM_itoa Value mem cap Base =
      (if cap \<le> length xs then (- 1, (store_at mem 0 xs)(0 := NUL))
       else (int ((length xs - 1) div 2), store_at mem 0 (rev xs @ [NUL])))"
    using itoa_result [OF assms(1,2), of Value mem cap] by (simp only: Let_def ds_def xs_def)
  have "length xs = length ds + (if sint Value < 0 \<and> Base = 10 then 1 else 0)"
    by (simp add: xs_def)
  then have "cap \<le> length xs"
    using assms(3) by (simp only: ds_def)
  then show "fst (RML_COMM_itoa Value mem cap Base) = - 1"
    and "snd (RML_COMM_itoa Value mem cap Base) 0 = NUL"
    by (simp_all add: res)
qed

text \<open>
  The defect behind C2, for every input: whenever \<^verbatim>\<open>RML_COMM_utoa\<close> succeeds, the value
  it returns is half of the length of the stored string less one, rounded down, and so
  below the length.
\<close>

lemma utoa_return_value:
  assumes "2 \<le> Base" and "Base \<le> 36"
    and ok: "fst (RML_COMM_utoa Value mem cap Base) \<noteq> - 1"
  shows "fst (RML_COMM_utoa Value mem cap Base)
           = int ((length (c_str cap (snd (RML_COMM_utoa Value mem cap Base))) - 1) div 2)"
    and "fst (RML_COMM_utoa Value mem cap Base)
           < int (length (c_str cap (snd (RML_COMM_utoa Value mem cap Base))))"
proof -
  define ds where "ds = nat_digits_rev (unat Base) (unat Value)"
  note b = ucast_base(4,5) [OF assms(1,2)]
  have res: "RML_COMM_utoa Value mem cap Base =
      (if cap \<le> length ds then (- 1, (store_at mem 0 ds)(0 := NUL))
       else (int ((length ds - 1) div 2), store_at mem 0 (rev ds @ [NUL])))"
    using utoa_result [OF assms(1,2), of Value mem cap] by (simp only: Let_def ds_def)
  have fits: "length ds < cap"
    using ok by (simp add: res split: if_splits)
  have ne: "ds \<noteq> []"
    unfolding ds_def by (rule nat_digits_rev_nonempty [OF b(1)])
  have "NUL \<notin> set ds"
    unfolding ds_def by (rule nat_digits_rev_no_NUL [OF b])
  then have "c_str cap (store_at mem 0 (rev ds @ [NUL])) = rev ds"
    using fits by (intro c_str_store_at) simp_all
  moreover have "snd (RML_COMM_utoa Value mem cap Base) = store_at mem 0 (rev ds @ [NUL])"
    using fits by (simp add: res)
  ultimately have len: "length (c_str cap (snd (RML_COMM_utoa Value mem cap Base))) = length ds"
    by simp
  have ret: "fst (RML_COMM_utoa Value mem cap Base) = int ((length ds - 1) div 2)"
    using fits by (simp add: res)
  show "fst (RML_COMM_utoa Value mem cap Base)
           = int ((length (c_str cap (snd (RML_COMM_utoa Value mem cap Base))) - 1) div 2)"
    by (simp only: len ret)
  have "(length ds - 1) div 2 < length ds"
    using ne by (cases ds) simp_all
  then show "fst (RML_COMM_utoa Value mem cap Base)
           < int (length (c_str cap (snd (RML_COMM_utoa Value mem cap Base))))"
    by (simp only: len ret of_nat_less_iff)
qed

section \<open>The sign of RML_COMM_ftoa on a full buffer\<close>

text \<open>
  C10. When the whole part is negative and its digits fill the buffer exactly (the
  do-while loop ends with \<^verbatim>\<open>i = BuffSize\<close>), the test \<^verbatim>\<open>NegativeFlag && i < BuffSize\<close>
  fails and the sign is not written; no error is returned there and the conversion goes
  on. What the call returns and leaves in the store is built from the digits alone, and
  it is exactly what the call gives for a value whose whole part is the magnitude: the
  negative number is rendered without its minus sign. (With decimal places asked for,
  -1 comes later, at the decimal point, and the terminator lands at offset
  \<^verbatim>\<open>BuffSize\<close>; with none, the call returns \<^verbatim>\<open>BuffSize\<close> and empties the string.)
\<close>

theorem ftoa_sign_skipped:
  assumes neg: "sint (d2i fp Value) < 0"
    and full: "ftoa_whole (- d2i fp Value) mem 0 BuffSize = Inr (digits, BuffSize)"
    and pos: "d2i fp Pos = - d2i fp Value" "0 \<le> sint (d2i fp Pos)"
  shows "RML_COMM_ftoa fp Value mem BuffSize Afterpoint =
           (if 0 < Afterpoint
            then (- 1, (RML_COMM_ReverseString digits BuffSize)(BuffSize := NUL))
            else (int BuffSize, (RML_COMM_ReverseString digits BuffSize)(0 := NUL))) \<and>
         RML_COMM_ftoa fp Value mem BuffSize Afterpoint
           = RML_COMM_ftoa fp Pos mem BuffSize Afterpoint"
proof -
  have npos: "\<not> sint (d2i fp Pos) < 0"
    using pos(2) by simp
  have v: "RML_COMM_ftoa fp Value mem BuffSize Afterpoint =
           (if 0 < Afterpoint
            then (- 1, (RML_COMM_ReverseString digits BuffSize)(BuffSize := NUL))
            else (int BuffSize, (RML_COMM_ReverseString digits BuffSize)(0 := NUL)))"
    unfolding RML_COMM_ftoa_def Let_def using neg
    by (simp add: full ftoa_terminate_def)
  have "RML_COMM_ftoa fp Pos mem BuffSize Afterpoint =
           (if 0 < Afterpoint
            then (- 1, (RML_COMM_ReverseString digits BuffSize)(BuffSize := NUL))
            else (int BuffSize, (RML_COMM_ReverseString digits BuffSize)(0 := NUL)))"
    unfolding RML_COMM_ftoa_def Let_def using npos
    by (simp add: pos(1) full ftoa_terminate_def)
  with v show ?thesis
    by simp
qed

theorem ftoa_sign_skipped_witness:
  "sint (d2i exact_fpu (- 247 / 2)) < 0 \<and>
   ftoa_whole (- d2i exact_fpu (- 247 / 2)) stale_buffer 0 3
     = Inr (stale_buffer(0 := CHR ''3'', 1 := CHR ''2'', 2 := CHR ''1''), 3) \<and>
   d2i exact_fpu (247 / 2) = - d2i exact_fpu (- 247 / 2) \<and>
   0 \<le> sint (d2i exact_fpu (247 / 2)) \<and>
   fst (RML_COMM_ftoa exact_fpu (- 247 / 2) stale_buffer 3 1) = - 1 \<and>
   c_str 4 (snd (RML_COMM_ftoa exact_fpu (- 247 / 2) stale_buffer 3 1)) = ''123'' \<and>
   RML_COMM_ftoa exact_fpu (- 247 / 2) stale_buffer 3 1
     = RML_COMM_ftoa exact_fpu (247 / 2) stale_buffer 3 1"
proof -
  have neg: "sint (d2i exact_fpu (- 247 / 2)) < 0"
    by (simp add: exact_fpu_def rat_trunc_def floor_rat_numeral)
  have full: "ftoa_whole (- d2i exact_fpu (- 247 / 2)) stale_buffer 0 3
      = Inr (stale_buffer(0 := CHR ''3'', 1 := CHR ''2'', 2 := CHR ''1''), 3)"
    by (simp add: run_ftoa numeral_2_eq_2)
  have pos: "d2i exact_fpu (247 / 2) = - d2i exact_fpu (- 247 / 2)"
    "0 \<le> sint (d2i exact_fpu (247 / 2))"
    by (simp_all add: exact_fpu_def rat_trunc_def floor_rat_numeral)
  have str: "c_str 4 ((RML_COMM_ReverseString
       (stale_buffer(0 := CHR ''3'', 1 := CHR ''2'', 2 := CHR ''1'')) 3)(3 := NUL)) = ''123''"
    by (simp add: run_ftoa)
  note skipped = ftoa_sign_skipped [OF neg full pos, of 1]
  have places: "(0 :: 8 word) < 1"
    by simp
  have r: "RML_COMM_ftoa exact_fpu (- 247 / 2) stale_buffer 3 1 =
      (- 1, (RML_COMM_ReverseString
          (stale_buffer(0 := CHR ''3'', 1 := CHR ''2'', 2 := CHR ''1'')) 3)(3 := NUL))"
    using skipped [THEN conjunct1] by (simp only: places if_True)
  have e: "RML_COMM_ftoa exact_fpu (- 247 / 2) stale_buffer 3 1
      = RML_COMM_ftoa exact_fpu (247 / 2) stale_buffer 3 1"
    by (rule skipped [THEN conjunct2])
  have "fst (RML_COMM_ftoa exact_fpu (- 247 / 2) stale_buffer 3 1) = - 1"
    by (simp only: r fst_conv)
  moreover have "c_str 4 (snd (RML_COMM_ftoa exact_fpu (- 247 / 2) stale_buffer 3 1)) = ''123''"
    by (simp only: r snd_conv str)
  ultimately show ?thesis
    using neg full pos e by (intro conjI)
qed

end
